theory Spec2Isabelle
  imports Main "HOL-Library.Multiset"
begin

section \<open>Strings\<close>

text \<open>
  A Python \<open>str\<close> is a sequence of Unicode code points; offsets and lengths count code
  points. A string is modelled as the list of its code points, and \<open>lit\<close> embeds an ASCII
  literal of the source.
\<close>

type_synonym str = "nat list"

definition lit :: "string \<Rightarrow> str" where
  "lit s = map of_char s"

text \<open>The slice \<open>s[i:j]\<close> for non-negative \<open>i\<close>, \<open>j\<close>: both ends are clamped to the length.\<close>

definition slice :: "'a list \<Rightarrow> nat \<Rightarrow> nat \<Rightarrow> 'a list" where
  "slice s i j = take (j - i) (drop i s)"

text \<open>\<open>sub in s\<close>: \<open>sub\<close> occurs in \<open>s\<close> as a contiguous run; the empty string occurs everywhere.\<close>

fun contains :: "'a list \<Rightarrow> 'a list \<Rightarrow> bool" where
  "contains [] sub = (sub = [])"
| "contains (c # cs) sub = (take (length sub) (c # cs) = sub \<or> contains cs sub)"

text \<open>
  \<open>s.replace(old, new)\<close>. For a non-empty \<open>old\<close> the string is scanned from the left; at an
  occurrence of \<open>old\<close> the replacement is emitted and the scan resumes behind the
  occurrence. For the empty \<open>old\<close>, \<open>new\<close> is put in front of every character and at the end.
\<close>

function replace_from :: "'a list \<Rightarrow> 'a list \<Rightarrow> 'a list \<Rightarrow> 'a list" where
  "replace_from [] old new = []"
| "replace_from (c # cs) old new =
     (if old \<noteq> [] \<and> take (length old) (c # cs) = old
      then new @ replace_from (drop (length old - 1) cs) old new
      else c # replace_from cs old new)"
  by pat_completeness auto
termination
  by (relation "measure (\<lambda>(s, old, new). length s)") auto

definition replace :: "'a list \<Rightarrow> 'a list \<Rightarrow> 'a list \<Rightarrow> 'a list" where
  "replace s old new =
     (if old = [] then new @ concat (map (\<lambda>c. c # new) s) else replace_from s old new)"

section \<open>Redaction\<close>

text \<open>
  A redaction item is a dictionary of which the redactor reads the key \<open>'text'\<close> only; the
  items of a detection result are such dictionaries with further keys.
\<close>

record redaction_item =
  item_text :: str

definition REDACTED :: str where
  "REDACTED = lit ''[REDACTED]''"

text \<open>
  \<open>DocumentProcessor.redact_txt\<close>, from the content read from the input file to the content
  written to the output file.
\<close>

fun redact_txt :: "str \<Rightarrow> ('a redaction_item_scheme) list \<Rightarrow> str" where
  "redact_txt content [] = content"
| "redact_txt content (item # redaction_items) =
     redact_txt (replace content (item_text item) REDACTED) redaction_items"

text \<open>
  \<open>DocumentProcessor.redact_docx\<close>, on the texts of the document's paragraphs: the inner loop
  over the items for one paragraph, and the outer loop over the paragraphs.
\<close>

fun redact_para :: "str \<Rightarrow> ('a redaction_item_scheme) list \<Rightarrow> str" where
  "redact_para para [] = para"
| "redact_para para (item # redaction_items) =
     redact_para
       (if contains para (item_text item) then replace para (item_text item) REDACTED else para)
       redaction_items"

definition redact_docx :: "str list \<Rightarrow> ('a redaction_item_scheme) list \<Rightarrow> str list" where
  "redact_docx paragraphs redaction_items = map (\<lambda>para. redact_para para redaction_items) paragraphs"

text \<open>
  The sentinel stands in every gap of \<open>w\<close>: \<open>r\<close> consists of the sentinel, then each character
  of \<open>w\<close> in turn followed by the sentinel again.
\<close>

definition sentinel_at_every_gap :: "str \<Rightarrow> str \<Rightarrow> bool" where
  "sentinel_at_every_gap w r \<longleftrightarrow>
     length r = length w + Suc (length w) * length REDACTED
     \<and> (\<forall>k \<le> length w.
          slice r (k * Suc (length REDACTED)) (k * Suc (length REDACTED) + length REDACTED) = REDACTED)
     \<and> (\<forall>k < length w. r ! (k * Suc (length REDACTED) + length REDACTED) = w ! k)"

section \<open>Regular expressions\<close>

text \<open>
  The detector's patterns are \<open>str\<close> patterns of the \<open>re\<close> module, so \<open>\w\<close> (behind \<open>\b\<close>),
  \<open>\d\<close> and \<open>\s\<close> are the Unicode classes and \<open>IGNORECASE\<close> uses the Unicode case tables.
  These tables of the interpreter are parameters of the model.
\<close>

record char_tables =
  is_word :: "nat \<Rightarrow> bool"
  is_digit :: "nat \<Rightarrow> bool"
  is_space :: "nat \<Rightarrow> bool"
  same_ci :: "nat \<Rightarrow> nat \<Rightarrow> bool"

text \<open>
  Character sets: a range \<open>a-b\<close>, a list of single characters, and a range under
  \<open>IGNORECASE\<close>, where \<open>same_ci p c\<close> says that the text character \<open>c\<close> matches the pattern
  character \<open>p\<close> when case is ignored.
\<close>

definition in_range :: "char \<Rightarrow> char \<Rightarrow> nat \<Rightarrow> bool" where
  "in_range a b c \<longleftrightarrow> of_char a \<le> c \<and> c \<le> of_char b"

definition one_of :: "string \<Rightarrow> nat \<Rightarrow> bool" where
  "one_of s c \<longleftrightarrow> c \<in> set (lit s)"

definition in_range_ci :: "char_tables \<Rightarrow> char \<Rightarrow> char \<Rightarrow> nat \<Rightarrow> bool" where
  "in_range_ci U a b c \<longleftrightarrow> list_ex (\<lambda>p. same_ci U p c) [of_char a ..< Suc (of_char b)]"

text \<open>
  The constructs the patterns use: one character of a set, \<open>\b\<close>, the empty pattern,
  concatenation, ordered alternation, the greedy \<open>r{0,n}\<close> and the greedy \<open>r*\<close>.
\<close>

datatype rx =
    Chr "nat \<Rightarrow> bool"
  | Bnd
  | Empty
  | Cat rx rx
  | Alt rx rx
  | Upto nat rx
  | Many rx

fun sequence :: "rx list \<Rightarrow> rx" where
  "sequence [] = Empty"
| "sequence (r # rs) = Cat r (sequence rs)"

fun alts :: "rx \<Rightarrow> rx list \<Rightarrow> rx" where
  "alts r [] = r"
| "alts r (x # xs) = Alt r (alts x xs)"

text \<open>\<open>r{m}\<close>, \<open>r{m,n}\<close>, \<open>r{m,}\<close>, \<open>r+\<close> and \<open>r?\<close>: \<open>m\<close> mandatory copies, then the optional ones.\<close>

definition exactly :: "nat \<Rightarrow> rx \<Rightarrow> rx" where
  "exactly m r = sequence (replicate m r)"

definition rep :: "nat \<Rightarrow> nat \<Rightarrow> rx \<Rightarrow> rx" where
  "rep m n r = Cat (exactly m r) (Upto (n - m) r)"

definition at_least :: "nat \<Rightarrow> rx \<Rightarrow> rx" where
  "at_least m r = Cat (exactly m r) (Many r)"

definition one_or_more :: "rx \<Rightarrow> rx" where
  "one_or_more r = at_least 1 r"

definition opt :: "rx \<Rightarrow> rx" where
  "opt r = rep 0 1 r"

text \<open>A literal character, and a literal word under \<open>IGNORECASE\<close>.\<close>

definition ch :: "char \<Rightarrow> rx" where
  "ch a = Chr (\<lambda>c. c = of_char a)"

definition word_ci :: "char_tables \<Rightarrow> string \<Rightarrow> rx" where
  "word_ci U w = sequence (map (\<lambda>a. Chr (same_ci U (of_char a))) w)"

text \<open>
  \<open>\b\<close> holds at offset \<open>i\<close> when exactly one of the characters before and behind \<open>i\<close> is
  a word character; beyond either end of the text there is none.
\<close>

definition at_boundary :: "char_tables \<Rightarrow> str \<Rightarrow> nat \<Rightarrow> bool" where
  "at_boundary U t i \<longleftrightarrow>
     (0 < i \<and> i \<le> length t \<and> is_word U (t ! (i - 1))) \<noteq> (i < length t \<and> is_word U (t ! i))"

text \<open>
  The backtracking matcher, as the list of the offsets at which a pattern started at
  offset \<open>i\<close> can end, in the order in which the engine tries them: a greedy repetition
  tries one more copy before it tries to stop, and an alternation its left branch first.
  A copy of a repeated pattern that consumes nothing is not followed by a further copy.
  \<open>f\<close> gives the ends of one copy; \<open>n\<close> is the length of the text, which no end exceeds
  (\<open>many_ends_unguarded\<close> below), so that the test \<open>j \<le> n\<close> never fails.
\<close>

fun upto_ends :: "(nat \<Rightarrow> nat list) \<Rightarrow> nat \<Rightarrow> nat \<Rightarrow> nat list" where
  "upto_ends f 0 i = [i]"
| "upto_ends f (Suc n) i =
     concat (map (\<lambda>j. if i < j then upto_ends f n j else [j]) (f i)) @ [i]"

function many_ends :: "(nat \<Rightarrow> nat list) \<Rightarrow> nat \<Rightarrow> nat \<Rightarrow> nat list" where
  "many_ends f n i =
     concat (map (\<lambda>j. if i < j \<and> j \<le> n then many_ends f n j else [j]) (f i)) @ [i]"
  by pat_completeness auto
termination
  by (relation "measure (\<lambda>(f, n, i). n - i)") auto

declare many_ends.simps [simp del]

primrec ends :: "char_tables \<Rightarrow> rx \<Rightarrow> str \<Rightarrow> nat \<Rightarrow> nat list" where
  "ends U (Chr P) t i = (if i < length t \<and> P (t ! i) then [Suc i] else [])"
| "ends U Bnd t i = (if at_boundary U t i then [i] else [])"
| "ends U Empty t i = [i]"
| "ends U (Cat a b) t i = concat (map (ends U b t) (ends U a t i))"
| "ends U (Alt a b) t i = ends U a t i @ ends U b t i"
| "ends U (Upto n r) t i = upto_ends (ends U r t) n i"
| "ends U (Many r) t i = many_ends (ends U r t) (length t) i"

text \<open>
  One attempt at offset \<open>i\<close> takes the first end the engine reaches; after an empty match
  the scanner does not accept another empty match at the same offset. A search tries the
  offsets from \<open>i\<close> up to the end of the text.
\<close>

definition match_at :: "char_tables \<Rightarrow> rx \<Rightarrow> str \<Rightarrow> bool \<Rightarrow> nat \<Rightarrow> nat option" where
  "match_at U r t must_advance i = find (\<lambda>j. \<not> (must_advance \<and> j = i)) (ends U r t i)"

fun search_in :: "char_tables \<Rightarrow> rx \<Rightarrow> str \<Rightarrow> bool \<Rightarrow> nat list \<Rightarrow> (nat \<times> nat) option" where
  "search_in U r t must_advance [] = None"
| "search_in U r t must_advance (p # ps) =
     (case match_at U r t must_advance p of
        Some j \<Rightarrow> Some (p, j)
      | None \<Rightarrow> search_in U r t False ps)"

definition search :: "char_tables \<Rightarrow> rx \<Rightarrow> str \<Rightarrow> bool \<Rightarrow> nat \<Rightarrow> (nat \<times> nat) option" where
  "search U r t must_advance i = search_in U r t must_advance [i ..< Suc (length t)]"

text \<open>
  \<open>pattern.finditer(text)\<close>: the spans \<open>(match.start(), match.end())\<close> of the successive
  matches; each search starts where the previous match ended. The function terminates
  because a match ends within the text and behind the offset at which the search
  started, or at that offset once; the proof follows the lemmas on the matcher.
\<close>

function finditer_from :: "char_tables \<Rightarrow> rx \<Rightarrow> str \<Rightarrow> bool \<Rightarrow> nat \<Rightarrow> (nat \<times> nat) list" where
  "finditer_from U r t must_advance i =
     (case search U r t must_advance i of
        None \<Rightarrow> []
      | Some (s, e) \<Rightarrow> (s, e) # finditer_from U r t (s = e) e)"
  by pat_completeness auto

definition finditer :: "char_tables \<Rightarrow> rx \<Rightarrow> str \<Rightarrow> (nat \<times> nat) list" where
  "finditer U r t = finditer_from U r t False 0"

section \<open>The detector\<close>

text \<open>The patterns compiled in \<open>PIIDetector.__init__\<close>.\<close>

definition email_local :: "nat \<Rightarrow> bool" where
  "email_local c \<longleftrightarrow> in_range CHR ''A'' CHR ''Z'' c \<or> in_range CHR ''a'' CHR ''z'' c
     \<or> in_range CHR ''0'' CHR ''9'' c \<or> one_of ''._%+-'' c"

definition email_domain :: "nat \<Rightarrow> bool" where
  "email_domain c \<longleftrightarrow> in_range CHR ''A'' CHR ''Z'' c \<or> in_range CHR ''a'' CHR ''z'' c
     \<or> in_range CHR ''0'' CHR ''9'' c \<or> one_of ''.-'' c"

definition email_tld :: "nat \<Rightarrow> bool" where
  "email_tld c \<longleftrightarrow> in_range CHR ''A'' CHR ''Z'' c \<or> one_of ''|'' c \<or> in_range CHR ''a'' CHR ''z'' c"

definition email_pattern :: rx where
  "email_pattern = sequence
     [Bnd, one_or_more (Chr email_local), ch CHR ''@'', one_or_more (Chr email_domain), ch CHR ''.'',
      at_least 2 (Chr email_tld), Bnd]"

definition ssn_pattern :: "char_tables \<Rightarrow> rx" where
  "ssn_pattern U = sequence
     [Bnd, exactly 3 (Chr (is_digit U)), opt (ch CHR ''-''), exactly 2 (Chr (is_digit U)),
      opt (ch CHR ''-''), exactly 4 (Chr (is_digit U)), Bnd]"

definition credit_card_pattern :: "char_tables \<Rightarrow> rx" where
  "credit_card_pattern U = sequence
     [Bnd,
      exactly 3 (sequence [exactly 4 (Chr (is_digit U)), opt (Chr (\<lambda>c. one_of ''-'' c \<or> is_space U c))]),
      exactly 4 (Chr (is_digit U)),
      Bnd]"

definition date_pattern :: "char_tables \<Rightarrow> rx" where
  "date_pattern U = sequence
     [Bnd, rep 1 2 (Chr (is_digit U)), Chr (one_of ''/-''), rep 1 2 (Chr (is_digit U)),
      Chr (one_of ''/-''), rep 2 4 (Chr (is_digit U)), Bnd]"

definition iban_pattern :: "char_tables \<Rightarrow> rx" where
  "iban_pattern U = sequence
     [Bnd, exactly 2 (Chr (in_range CHR ''A'' CHR ''Z'')), exactly 2 (Chr (is_digit U)),
      exactly 4 (Chr (\<lambda>c. in_range CHR ''A'' CHR ''Z'' c \<or> in_range CHR ''0'' CHR ''9'' c)),
      exactly 7 (Chr (is_digit U)),
      rep 0 16 (opt (Chr (\<lambda>c. in_range CHR ''A'' CHR ''Z'' c \<or> in_range CHR ''0'' CHR ''9'' c))),
      Bnd]"

definition address_pattern :: "char_tables \<Rightarrow> rx" where
  "address_pattern U = sequence
     [Bnd, one_or_more (Chr (is_digit U)), one_or_more (Chr (is_space U)),
      one_or_more (Chr (\<lambda>c. in_range_ci U CHR ''A'' CHR ''Z'' c \<or> in_range_ci U CHR ''a'' CHR ''z'' c
                   \<or> is_space U c)),
      alts (word_ci U ''Street'')
        [word_ci U ''St'', word_ci U ''Avenue'', word_ci U ''Ave'', word_ci U ''Road'',
         word_ci U ''Rd'', word_ci U ''Boulevard'', word_ci U ''Blvd'', word_ci U ''Lane'',
         word_ci U ''Ln'', word_ci U ''Drive'', word_ci U ''Dr''],
      Bnd]"

text \<open>
  An item of the result: the dictionary with the keys \<open>'type'\<close>, \<open>'text'\<close>, \<open>'start'\<close>,
  \<open>'end'\<close> and \<open>'confidence'\<close>.
\<close>

record pii_item = redaction_item +
  item_type :: string
  item_start :: nat
  item_end :: nat
  item_confidence :: string

text \<open>
  A loop over \<open>finditer\<close>: one item for each match, with \<open>match.group()\<close>, the matched part
  of the text, \<open>match.start()\<close> and \<open>match.end()\<close>.
\<close>

definition regex_items :: "string \<Rightarrow> string \<Rightarrow> str \<Rightarrow> (nat \<times> nat) list \<Rightarrow> pii_item list" where
  "regex_items ty conf text ms =
     map (\<lambda>(s, e). \<lparr>item_text = slice text s e, item_type = ty, item_start = s, item_end = e,
                    item_confidence = conf\<rparr>) ms"

definition email_items :: "char_tables \<Rightarrow> str \<Rightarrow> pii_item list" where
  "email_items U text = regex_items ''email'' ''high'' text (finditer U email_pattern text)"

definition ssn_items :: "char_tables \<Rightarrow> str \<Rightarrow> pii_item list" where
  "ssn_items U text = regex_items ''ssn'' ''high'' text (finditer U (ssn_pattern U) text)"

definition credit_card_items :: "char_tables \<Rightarrow> str \<Rightarrow> pii_item list" where
  "credit_card_items U text =
     regex_items ''credit_card'' ''medium'' text (finditer U (credit_card_pattern U) text)"

definition date_items :: "char_tables \<Rightarrow> str \<Rightarrow> pii_item list" where
  "date_items U text = regex_items ''date'' ''low'' text (finditer U (date_pattern U) text)"

definition iban_items :: "char_tables \<Rightarrow> str \<Rightarrow> pii_item list" where
  "iban_items U text = regex_items ''iban'' ''high'' text (finditer U (iban_pattern U) text)"

definition address_items :: "char_tables \<Rightarrow> str \<Rightarrow> pii_item list" where
  "address_items U text =
     regex_items ''address'' ''medium'' text (finditer U (address_pattern U) text)"

text \<open>
  \<open>phonenumbers.PhoneNumberMatcher(text, None)\<close> is an iterator of the \<open>phonenumbers\<close>
  library: it is a parameter of the model. Iterating it yields a match with the
  attributes \<open>start\<close> and \<open>end\<close> and goes on, or ends, or raises. The loop of \<open>detect_pii\<close>
  appends an item for every match it is given; the \<open>except\<close> clause ends the loop on any
  exception and keeps the items appended so far.
\<close>

datatype phone_iter = Yield nat nat phone_iter | Stop | Raise

fun phone_items :: "str \<Rightarrow> phone_iter \<Rightarrow> pii_item list" where
  "phone_items text (Yield s e rest) =
     \<lparr>item_text = slice text s e, item_type = ''phone'', item_start = s, item_end = e,
      item_confidence = ''high''\<rparr> # phone_items text rest"
| "phone_items text Stop = []"
| "phone_items text Raise = []"

text \<open>\<open>PIIDetector.detect_pii\<close>; \<open>sorted\<close> is a stable sort.\<close>

definition detect_pii :: "char_tables \<Rightarrow> (str \<Rightarrow> phone_iter) \<Rightarrow> str \<Rightarrow> pii_item list" where
  "detect_pii U phone text =
     (let pii_items = [];
          pii_items = pii_items @ email_items U text;
          pii_items = pii_items @ phone_items text (phone text);
          pii_items = pii_items @ ssn_items U text;
          pii_items = pii_items @ credit_card_items U text;
          pii_items = pii_items @ date_items U text;
          pii_items = pii_items @ iban_items U text;
          pii_items = pii_items @ address_items U text
      in sort_key item_start pii_items)"

text \<open>
  The tables on ASCII, where they are the familiar ones: letters, digits and the
  underscore are word characters, \<open>0-9\<close> the digits, space and the control characters
  9 to 13 and 28 to 31 white space, and only the two cases of a letter are the same when
  case is ignored. They serve to run the detector on ASCII texts.
\<close>

definition ascii_lower :: "nat \<Rightarrow> nat" where
  "ascii_lower c = (if 65 \<le> c \<and> c \<le> 90 then c + 32 else c)"

definition ascii_tables :: char_tables where
  "ascii_tables =
     \<lparr>is_word = (\<lambda>c. in_range CHR ''A'' CHR ''Z'' c \<or> in_range CHR ''a'' CHR ''z'' c
                    \<or> in_range CHR ''0'' CHR ''9'' c \<or> one_of ''_'' c),
      is_digit = in_range CHR ''0'' CHR ''9'',
      is_space = (\<lambda>c. c = 32 \<or> (9 \<le> c \<and> c \<le> 13) \<or> (28 \<le> c \<and> c \<le> 31)),
      same_ci = (\<lambda>p c. ascii_lower p = ascii_lower c)\<rparr>"

text \<open>A phone matcher whose iteration is given, to run the detector.\<close>

definition phone_gives :: "phone_iter \<Rightarrow> str \<Rightarrow> phone_iter" where
  "phone_gives it text = it"

section \<open>Notions of the specification\<close>

text \<open>The spans a phone iteration yields, and whether it ends by raising.\<close>

fun yielded :: "phone_iter \<Rightarrow> (nat \<times> nat) list" where
  "yielded (Yield s e rest) = (s, e) # yielded rest"
| "yielded Stop = []"
| "yielded Raise = []"

fun raises :: "phone_iter \<Rightarrow> bool" where
  "raises (Yield s e rest) = raises rest"
| "raises Stop = False"
| "raises Raise = True"

text \<open>
  Spans that follow one another from offset \<open>lo\<close> on: each starts where the previous one
  ended or later. Spans that lie within a text of length \<open>n\<close>.
\<close>

fun in_order :: "nat \<Rightarrow> (nat \<times> nat) list \<Rightarrow> bool" where
  "in_order lo [] = True"
| "in_order lo ((s, e) # ms) = (lo \<le> s \<and> s \<le> e \<and> in_order e ms)"



section \<open>Properties of \<open>replace\<close>\<close>

lemma contains_Nil [simp]: "contains s []"
  by (induction s) auto

lemma replace_from_absent: "\<not> contains s old \<Longrightarrow> replace_from s old new = s"
  by (induction s) auto

lemma replace_absent: "\<not> contains s old \<Longrightarrow> replace s old new = s"
  by (cases "old = []") (auto simp: replace_def replace_from_absent)

lemma replace_from_at_occurrence:
  "old \<noteq> [] \<Longrightarrow> replace_from (old @ v) old new = new @ replace_from v old new"
  by (cases old) auto

text \<open>
  When the leftmost occurrence of \<open>old\<close> starts behind \<open>u\<close>, the scan copies \<open>u\<close>, emits the
  replacement and goes on behind the occurrence.
\<close>

lemma replace_from_first:
  "old \<noteq> [] \<Longrightarrow> \<not> contains (u @ butlast old) old \<Longrightarrow>
   replace_from (u @ old @ v) old new = u @ new @ replace_from v old new"
proof (induction u)
  case Nil
  then show ?case by (simp add: replace_from_at_occurrence)
next
  case (Cons a u)
  have len: "length old \<le> length (a # u @ butlast old)" by simp
  have split: "a # u @ old @ v = (a # u @ butlast old) @ (last old # v)"
    using Cons.prems(1) by (simp add: append_butlast_last_id [symmetric] del: append_butlast_last_id)
  have "take (length old) (a # u @ old @ v) = take (length old) (a # u @ butlast old)"
    unfolding split using len by (simp del: append_Cons)
  with Cons show ?case by auto
qed

lemma replace_first:
  "old \<noteq> [] \<Longrightarrow> \<not> contains (u @ butlast old) old \<Longrightarrow>
   replace (u @ old @ v) old new = u @ new @ replace v old new"
  by (simp add: replace_def replace_from_first)

lemma length_gaps: "length (concat (map (\<lambda>c. c # new) s)) = length s * Suc (length new)"
  by (induction s) auto

lemma drop_gaps:
  "k \<le> length s \<Longrightarrow>
   drop (k * Suc (length new)) (new @ concat (map (\<lambda>c. c # new) s))
     = new @ concat (map (\<lambda>c. c # new) (drop k s))"
proof (induction s arbitrary: k)
  case Nil
  then show ?case by simp
next
  case (Cons c cs)
  show ?case
  proof (cases k)
    case 0
    then show ?thesis by simp
  next
    case (Suc j)
    with Cons.prems have j: "j \<le> length cs" by simp
    have "drop (k * Suc (length new)) (new @ concat (map (\<lambda>c. c # new) (c # cs)))
        = drop (j * Suc (length new))
            (drop (Suc (length new)) (new @ c # (new @ concat (map (\<lambda>c. c # new) cs))))"
      using Suc by (simp add: add.commute)
    also have "\<dots> = drop (j * Suc (length new)) (new @ concat (map (\<lambda>c. c # new) cs))"
      by simp
    also have "\<dots> = new @ concat (map (\<lambda>c. c # new) (drop j cs))"
      using Cons.IH [OF j] .
    finally show ?thesis using Suc by simp
  qed
qed

lemma length_REDACTED: "length REDACTED = 10"
  by (simp add: REDACTED_def lit_def)

lemma replace_empty_gaps: "sentinel_at_every_gap w (replace w [] REDACTED)"
proof -
  let ?n = "length REDACTED"
  let ?r = "REDACTED @ concat (map (\<lambda>c. c # REDACTED) w)"
  have r: "replace w [] REDACTED = ?r" by (simp add: replace_def)
  have len: "length ?r = length w + Suc (length w) * ?n"
    by (simp add: length_gaps)
  have sl: "slice ?r (k * Suc ?n) (k * Suc ?n + ?n) = REDACTED" if "k \<le> length w" for k
    unfolding slice_def using drop_gaps [OF that, of REDACTED] by simp
  have ch: "?r ! (k * Suc ?n + ?n) = w ! k" if "k < length w" for k
  proof -
    have "k \<le> length w" using that by simp
    from drop_gaps [OF this, of REDACTED]
    have d: "drop (k * Suc ?n) ?r = REDACTED @ concat (map (\<lambda>c. c # REDACTED) (drop k w))" .
    have dk: "drop k w = w ! k # drop (Suc k) w" using that by (simp add: Cons_nth_drop_Suc)
    have "k * Suc ?n + ?n < length ?r"
    proof -
      have "Suc k \<le> length w" using that by simp
      then have "Suc k * Suc ?n \<le> length w * Suc ?n"
        by (rule mult_le_mono1)
      then show ?thesis by (simp add: length_gaps)
    qed
    then have "k * Suc ?n \<le> length ?r" by linarith
    then have "?r ! (k * Suc ?n + ?n) = drop (k * Suc ?n) ?r ! ?n"
      by (rule nth_drop [symmetric])
    also have "\<dots> = w ! k" unfolding d dk by (simp add: nth_append)
    finally show ?thesis .
  qed
  show ?thesis unfolding r sentinel_at_every_gap_def using len sl ch by blast
qed

lemma gaps_differ: "sentinel_at_every_gap w r \<Longrightarrow> r \<noteq> w"
  by (auto simp: sentinel_at_every_gap_def length_REDACTED)

section \<open>Properties of the redactor\<close>

lemma redact_txt_append: "redact_txt c (xs @ ys) = redact_txt (redact_txt c xs) ys"
  by (induction xs arbitrary: c) auto

lemma redact_txt_all_absent:
  "\<forall>it \<in> set its. \<not> contains c (item_text it) \<Longrightarrow> redact_txt c its = c"
  by (induction its) (auto simp: replace_absent)

lemma membership_check_redundant:
  "(if contains p old then replace p old new else p) = replace p old new"
  by (simp add: replace_absent)

lemma redact_para_eq_txt: "redact_para p its = redact_txt p its"
  by (induction its arbitrary: p) (auto simp: replace_absent)

lemma redact_docx_eq_txt: "redact_docx bs its = map (\<lambda>b. redact_txt b its) bs"
  by (simp add: redact_docx_def redact_para_eq_txt)



text \<open>
  Claim C2. The plain-text redactor takes the literals in the order given: each step
  replaces all occurrences of the literal in the working text by the sentinel, and the
  next literal is matched against the result. The replacement is the leftmost-first,
  non-overlapping replace-all: a text without the literal stays as it is, and where the
  leftmost occurrence starts behind \<open>u\<close>, \<open>u\<close> is copied, the replacement emitted and the
  rest behind the occurrence treated the same way. \<open>"aaa"\<close> with the literal \<open>"aa"\<close> gives
  \<open>"[REDACTED]a"\<close>, and a literal made of the sentinel matches text that an earlier
  literal produced.
\<close>

theorem redact_txt_sequential_replace_all:
  fixes item :: "'a redaction_item_scheme"
  shows "redact_txt content [] = content
    \<and> redact_txt content (item # items)
        = redact_txt (replace content (item_text item) REDACTED) items
    \<and> (\<not> contains s old \<longrightarrow> replace s old new = s)
    \<and> (old \<noteq> [] \<and> \<not> contains (u @ butlast old) old
         \<longrightarrow> replace (u @ old @ v) old new = u @ new @ replace v old new)
    \<and> redact_txt (lit ''aaa'') [\<lparr>item_text = lit ''aa''\<rparr>] = lit ''[REDACTED]a''
    \<and> redact_txt (lit ''ab'') [\<lparr>item_text = lit ''a''\<rparr>, \<lparr>item_text = lit ''[REDACTED]b''\<rparr>]
        = lit ''[REDACTED]''"
proof -
  have ex1: "redact_txt (lit ''aaa'') [\<lparr>item_text = lit ''aa''\<rparr>] = lit ''[REDACTED]a''"
    by (simp add: replace_def lit_def REDACTED_def)
  have ex2: "redact_txt (lit ''ab'') [\<lparr>item_text = lit ''a''\<rparr>, \<lparr>item_text = lit ''[REDACTED]b''\<rparr>]
      = lit ''[REDACTED]''"
    by (simp add: replace_def lit_def REDACTED_def)
  have nil: "redact_txt content [] = content" by simp
  have cons: "redact_txt content (item # items)
      = redact_txt (replace content (item_text item) REDACTED) items"
    by simp
  have absent: "\<not> contains s old \<longrightarrow> replace s old new = s"
    using replace_absent by blast
  have first: "old \<noteq> [] \<and> \<not> contains (u @ butlast old) old
      \<longrightarrow> replace (u @ old @ v) old new = u @ new @ replace v old new"
    using replace_first by blast
  show ?thesis
    by (intro conjI nil cons absent first ex1 ex2)
qed

theorem redact_txt_sequential_replace_all_witness:
  "\<not> contains (lit ''abc'') (lit ''aa'')
   \<and> replace (lit ''abc'') (lit ''aa'') REDACTED = lit ''abc''
   \<and> lit ''aa'' \<noteq> [] \<and> \<not> contains (lit ''x'' @ butlast (lit ''aa'')) (lit ''aa'')
   \<and> replace (lit ''x'' @ lit ''aa'' @ lit ''a'') (lit ''aa'') REDACTED
       = lit ''x'' @ REDACTED @ replace (lit ''a'') (lit ''aa'') REDACTED"
proof -
  have h1: "\<not> contains (lit ''abc'') (lit ''aa'')" by (simp add: lit_def)
  have h2: "lit ''aa'' \<noteq> []" by (simp add: lit_def)
  have h3: "\<not> contains (lit ''x'' @ butlast (lit ''aa'')) (lit ''aa'')" by (simp add: lit_def)
  show ?thesis
    using h1 h2 h3
      redact_txt_sequential_replace_all [where s = "lit ''abc''" and old = "lit ''aa''"
        and new = REDACTED and u = "lit ''x''" and v = "lit ''a''"
        and item = "\<lparr>item_text = []\<rparr>" and items = "[]" and content = "[]"]
    by blast
qed

text \<open>
  Claim C5. The structured redactor returns as many blocks as it is given, in the same
  order: the block at each index is what the redactor makes of the input block at that
  index alone. A block in which none of the listed literals occurs is left as it is.
  Redacting \<open>"a@b.com"\<close> in the blocks \<open>"Email: a@b.com"\<close>, \<open>"No PII here"\<close> gives
  \<open>"Email: [REDACTED]"\<close>, \<open>"No PII here"\<close>.
\<close>

theorem redact_docx_frame:
  fixes items :: "'a redaction_item_scheme list"
  shows "length (redact_docx blocks items) = length blocks
    \<and> (\<forall>i < length blocks. redact_docx [blocks ! i] items = [redact_docx blocks items ! i])
    \<and> (\<forall>i < length blocks. (\<forall>it \<in> set items. \<not> contains (blocks ! i) (item_text it))
          \<longrightarrow> redact_docx blocks items ! i = blocks ! i)
    \<and> redact_docx [lit ''Email: a@b.com'', lit ''No PII here''] [\<lparr>item_text = lit ''a@b.com''\<rparr>]
        = [lit ''Email: [REDACTED]'', lit ''No PII here'']"
proof -
  have ex: "redact_docx [lit ''Email: a@b.com'', lit ''No PII here''] [\<lparr>item_text = lit ''a@b.com''\<rparr>]
      = [lit ''Email: [REDACTED]'', lit ''No PII here'']"
    by (simp add: redact_docx_def replace_def lit_def REDACTED_def)
  have frame: "redact_docx blocks items ! i = blocks ! i"
    if "i < length blocks" "\<forall>it \<in> set items. \<not> contains (blocks ! i) (item_text it)" for i
    using that by (simp add: redact_docx_eq_txt redact_txt_all_absent)
  show ?thesis
    using ex frame by (simp add: redact_docx_def)
qed

theorem redact_docx_frame_witness:
  "(1::nat) < length [lit ''Email: a@b.com'', lit ''No PII here'']
   \<and> \<not> contains (lit ''No PII here'') (lit ''a@b.com'')
   \<and> redact_docx [lit ''Email: a@b.com'', lit ''No PII here''] [\<lparr>item_text = lit ''a@b.com''\<rparr>] ! 1
       = [lit ''Email: a@b.com'', lit ''No PII here''] ! 1"
proof -
  have l: "(1::nat) < length [lit ''Email: a@b.com'', lit ''No PII here'']" by simp
  have n: "\<not> contains (lit ''No PII here'') (lit ''a@b.com'')" by (simp add: lit_def)
  then have h: "\<forall>it \<in> set [\<lparr>item_text = lit ''a@b.com''\<rparr>].
      \<not> contains ([lit ''Email: a@b.com'', lit ''No PII here''] ! 1) (item_text it)"
    by simp
  note inst = redact_docx_frame [where blocks = "[lit ''Email: a@b.com'', lit ''No PII here'']"
      and items = "[\<lparr>item_text = lit ''a@b.com''\<rparr>]"]
  note c = inst [THEN conjunct2, THEN conjunct2, THEN conjunct1, THEN spec, THEN mp, OF l,
      THEN mp, OF h]
  show ?thesis
    by (intro conjI l n c)
qed



text \<open>
  Claim C9. A literal that is the empty string is not a no-op. When its turn comes, the
  plain-text redactor puts the sentinel into every gap of the working text, in front of
  the first character and behind the last one included, and the structured redactor
  does so in every block.
\<close>

theorem redact_empty_literal_inserts_sentinel:
  fixes it :: "'a redaction_item_scheme"
  assumes "item_text it = []"
  shows "sentinel_at_every_gap (redact_txt content pre) (redact_txt content (pre @ [it]))
    \<and> redact_txt content (pre @ [it]) \<noteq> redact_txt content pre
    \<and> (\<forall>i < length blocks.
          sentinel_at_every_gap (redact_docx blocks pre ! i) (redact_docx blocks (pre @ [it]) ! i)
          \<and> redact_docx blocks (pre @ [it]) ! i \<noteq> redact_docx blocks pre ! i)"
proof -
  have step: "redact_txt c (pre @ [it]) = replace (redact_txt c pre) [] REDACTED" for c
    using assms by (simp add: redact_txt_append)
  have tx: "sentinel_at_every_gap (redact_txt c pre) (redact_txt c (pre @ [it]))" for c
    unfolding step by (rule replace_empty_gaps)
  have docx: "redact_docx blocks its ! i = redact_txt (blocks ! i) its"
    if "i < length blocks" for i and its :: "'a redaction_item_scheme list"
    using that by (simp add: redact_docx_eq_txt)
  show ?thesis
    using tx gaps_differ [OF tx] by (simp add: docx)
qed

theorem redact_empty_literal_inserts_sentinel_witness:
  "item_text \<lparr>item_text = []\<rparr> = []
   \<and> redact_txt (lit ''ab'') ([] @ [\<lparr>item_text = []\<rparr>])
       \<noteq> redact_txt (lit ''ab'') ([] :: redaction_item list)
   \<and> redact_txt (lit ''ab'') [\<lparr>item_text = []\<rparr>] = lit ''[REDACTED]a[REDACTED]b[REDACTED]''
   \<and> (0::nat) < length [lit ''a'']
   \<and> redact_docx [lit ''a''] ([] @ [\<lparr>item_text = []\<rparr>]) ! 0
       \<noteq> redact_docx [lit ''a''] ([] :: redaction_item list) ! 0
   \<and> redact_docx [lit ''a''] [\<lparr>item_text = []\<rparr>] = [lit ''[REDACTED]a[REDACTED]'']"
proof -
  have h: "item_text \<lparr>item_text = []\<rparr> = []" by simp
  have e1: "redact_txt (lit ''ab'') [\<lparr>item_text = []\<rparr>] = lit ''[REDACTED]a[REDACTED]b[REDACTED]''"
    by (simp add: replace_def lit_def REDACTED_def)
  have e2: "redact_docx [lit ''a''] [\<lparr>item_text = []\<rparr>] = [lit ''[REDACTED]a[REDACTED]'']"
    by (simp add: redact_docx_def replace_def lit_def REDACTED_def)
  have l: "(0::nat) < length [lit ''a'']" by simp
  note inst = redact_empty_literal_inserts_sentinel [where it = "\<lparr>item_text = []\<rparr>"
      and content = "lit ''ab''" and pre = "[] :: redaction_item list" and blocks = "[lit ''a'']", OF h]
  note c1 = inst [THEN conjunct2, THEN conjunct1]
  note c2 = inst [THEN conjunct2, THEN conjunct2, THEN spec, THEN mp, OF l, THEN conjunct2]
  show ?thesis
    by (intro conjI h c1 e1 l c2 e2)
qed

text \<open>
  Claim C10. For every block sequence and every literal list, each block of the
  structured redactor's output is the plain-text redactor's output for that block's text
  alone. The membership test in front of each replacement changes nothing, since
  replacing a literal that does not occur leaves the text as it is.
\<close>

theorem redact_docx_refines_redact_txt:
  fixes items :: "'a redaction_item_scheme list"
  shows "redact_docx blocks items = map (\<lambda>block. redact_txt block items) blocks
    \<and> (if contains para old then replace para old REDACTED else para) = replace para old REDACTED"
  by (simp add: redact_docx_eq_txt replace_absent)

section \<open>The matcher stays within the text\<close>

lemma upto_ends_bounds:
  assumes f: "\<And>i j. i \<le> n \<Longrightarrow> j \<in> set (f i) \<Longrightarrow> i \<le> j \<and> j \<le> n"
  shows "i \<le> n \<Longrightarrow> j \<in> set (upto_ends f k i) \<Longrightarrow> i \<le> j \<and> j \<le> n"
proof (induction k arbitrary: i j)
  case 0
  then show ?case by simp
next
  case (Suc k)
  from Suc.prems(2) consider "j = i"
    | j' where "j' \<in> set (f i)" "j \<in> set (if i < j' then upto_ends f k j' else [j'])"
    by auto
  then show ?case
  proof cases
    case 1
    with Suc.prems(1) show ?thesis by simp
  next
    case 2
    from f [OF Suc.prems(1) 2(1)] have b: "i \<le> j'" "j' \<le> n" by simp_all
    show ?thesis
    proof (cases "i < j'")
      case True
      with 2(2) have "j \<in> set (upto_ends f k j')" by simp
      from Suc.IH [OF b(2) this] b show ?thesis by simp
    next
      case False
      with 2(2) b show ?thesis by simp
    qed
  qed
qed

lemma many_ends_bounds:
  "(\<And>i j. i \<le> n \<Longrightarrow> j \<in> set (f i) \<Longrightarrow> i \<le> j \<and> j \<le> n) \<Longrightarrow>
   i \<le> n \<Longrightarrow> j \<in> set (many_ends f n i) \<Longrightarrow> i \<le> j \<and> j \<le> n"
proof (induction f n i arbitrary: j rule: many_ends.induct)
  case (1 f n i)
  note f = "1.prems"(1)
  from "1.prems"(3) consider "j = i"
    | j' where "j' \<in> set (f i)" "j \<in> set (if i < j' \<and> j' \<le> n then many_ends f n j' else [j'])"
    by (subst (asm) many_ends.simps) auto
  then show ?case
  proof cases
    case 1
    with "1.prems"(2) show ?thesis by simp
  next
    case 2
    from f [OF "1.prems"(2) 2(1)] have b: "i \<le> j'" "j' \<le> n" by simp_all
    show ?thesis
    proof (cases "i < j'")
      case True
      with 2(2) b have m: "j \<in> set (many_ends f n j')" by simp
      from True b have c: "i < j' \<and> j' \<le> n" by simp
      from "1.IH" [OF 2(1) c f b(2) m] True show ?thesis by simp
    next
      case False
      with 2(2) b show ?thesis by simp
    qed
  qed
qed

lemma ends_bounds:
  "i \<le> length t \<Longrightarrow> j \<in> set (ends U r t i) \<Longrightarrow> i \<le> j \<and> j \<le> length t"
proof (induction r arbitrary: i j)
  case (Chr P)
  then show ?case by (auto split: if_splits)
next
  case Bnd
  then show ?case by (auto split: if_splits)
next
  case Empty
  then show ?case by simp
next
  case (Cat a b)
  from Cat.prems(2) obtain k where k: "k \<in> set (ends U a t i)" "j \<in> set (ends U b t k)"
    by auto
  from Cat.IH(1) [OF Cat.prems(1) k(1)] have "i \<le> k" "k \<le> length t" by simp_all
  with Cat.IH(2) [OF _ k(2)] show ?case by simp
next
  case (Alt a b)
  from Alt.prems(2) have "j \<in> set (ends U a t i) \<or> j \<in> set (ends U b t i)" by simp
  then show ?case
  proof
    assume "j \<in> set (ends U a t i)"
    with Alt.prems(1) show ?thesis by (rule Alt.IH(1))
  next
    assume "j \<in> set (ends U b t i)"
    with Alt.prems(1) show ?thesis by (rule Alt.IH(2))
  qed
next
  case (Upto n r)
  have f: "\<And>i j. i \<le> length t \<Longrightarrow> j \<in> set (ends U r t i) \<Longrightarrow> i \<le> j \<and> j \<le> length t"
    by (rule Upto.IH)
  from Upto.prems(2) have m: "j \<in> set (upto_ends (ends U r t) n i)" by simp
  show ?case
    by (rule upto_ends_bounds [where f = "ends U r t" and n = "length t", OF f Upto.prems(1) m])
next
  case (Many r)
  have f: "\<And>i j. i \<le> length t \<Longrightarrow> j \<in> set (ends U r t i) \<Longrightarrow> i \<le> j \<and> j \<le> length t"
    by (rule Many.IH)
  from Many.prems(2) have m: "j \<in> set (many_ends (ends U r t) (length t) i)" by simp
  show ?case
    by (rule many_ends_bounds [where f = "ends U r t" and n = "length t", OF f Many.prems(1) m])
qed

lemma match_at_bounds:
  "match_at U r t adv i = Some j \<Longrightarrow> i \<le> length t \<Longrightarrow>
   i \<le> j \<and> j \<le> length t \<and> (adv \<longrightarrow> i < j)"
proof -
  assume m: "match_at U r t adv i = Some j" and i: "i \<le> length t"
  from m have "j \<in> set (ends U r t i)" "\<not> (adv \<and> j = i)"
    by (auto simp: match_at_def find_Some_iff)
  with ends_bounds [OF i, of j U r] show ?thesis by auto
qed

lemma search_in_bounds:
  "search_in U r t adv ps = Some (s, e) \<Longrightarrow> \<forall>p \<in> set ps. p \<le> length t \<Longrightarrow>
   s \<in> set ps \<and> s \<le> e \<and> e \<le> length t"
proof (induction ps arbitrary: adv)
  case Nil
  then show ?case by simp
next
  case (Cons p ps)
  show ?case
  proof (cases "match_at U r t adv p")
    case None
    with Cons.prems have "search_in U r t False ps = Some (s, e)" by simp
    from Cons.IH [OF this] Cons.prems(2) show ?thesis by simp
  next
    case (Some j)
    with Cons.prems have "s = p" "e = j" by simp_all
    with match_at_bounds [OF Some] Cons.prems(2) show ?thesis by simp
  qed
qed

lemma search_bounds:
  assumes "search U r t adv i = Some (s, e)"
  shows "i \<le> s \<and> s \<le> e \<and> e \<le> length t \<and> (adv \<longrightarrow> i < e)"
proof (cases "i \<le> length t")
  case False
  with assms show ?thesis by (simp add: search_def)
next
  case True
  then have upt: "[i ..< Suc (length t)] = i # [Suc i ..< Suc (length t)]"
    by (simp add: upt_conv_Cons)
  show ?thesis
  proof (cases "match_at U r t adv i")
    case None
    with assms upt have "search_in U r t False [Suc i ..< Suc (length t)] = Some (s, e)"
      by (simp add: search_def)
    moreover have "\<forall>p \<in> set [Suc i ..< Suc (length t)]. p \<le> length t" by auto
    ultimately have "s \<in> set [Suc i ..< Suc (length t)] \<and> s \<le> e \<and> e \<le> length t"
      by (rule search_in_bounds)
    then show ?thesis by auto
  next
    case (Some j)
    with assms upt have "s = i" "e = j" by (simp_all add: search_def)
    with match_at_bounds [OF Some True] show ?thesis by simp
  qed
qed

termination finditer_from
proof (relation "measure (\<lambda>(U, r, t, adv, i). 2 * (Suc (length t) - i) + (if adv then 0 else 1))",
    goal_cases)
  case 1
  show ?case by simp
next
  case (2 U r t adv i x s e)
  then have "search U r t adv i = Some (s, e)" by simp
  from search_bounds [OF this] show ?case by (auto split: if_splits)
qed

declare finditer_from.simps [simp del]

section \<open>Successive matches\<close>

lemma in_order_mono: "in_order lo ms \<Longrightarrow> lo' \<le> lo \<Longrightarrow> in_order lo' ms"
  by (cases ms) auto






text \<open>Items made of spans.\<close>

lemma phone_items_yielded:
  "phone_items text it = regex_items ''phone'' ''high'' text (yielded it)"
  by (induction it) (simp_all add: regex_items_def)


lemma filter_regex_items:
  "filter (\<lambda>m. item_type m = c) (regex_items ty conf text ms)
     = (if c = ty then regex_items ty conf text ms else [])"
  by (induction ms) (auto simp: regex_items_def)

lemma regex_items_member:
  "m \<in> set (regex_items ty conf text ms) \<Longrightarrow>
   (item_start m, item_end m) \<in> set ms \<and> item_text m = slice text (item_start m) (item_end m)"
  by (auto simp: regex_items_def)



section \<open>Properties of the detector\<close>

lemma detect_pii_pool:
  "detect_pii U phone text = sort_key item_start
     (email_items U text @ phone_items text (phone text) @ ssn_items U text
      @ credit_card_items U text @ date_items U text @ iban_items U text @ address_items U text)"
  by (simp add: detect_pii_def)

lemmas category_items_defs =
  email_items_def ssn_items_def credit_card_items_def date_items_def iban_items_def
  address_items_def phone_items_yielded

lemma regex_items_Nil: "regex_items ty conf text [] = []"
  by (simp add: regex_items_def)

lemma filter_other_regex_items:
  "filter (\<lambda>m. item_type m \<noteq> c) (regex_items ty conf text ms)
     = (if c = ty then [] else regex_items ty conf text ms)"
  by (induction ms) (auto simp: regex_items_def)

lemma filter_category_pool:
  "filter (\<lambda>m. item_type m = c)
     (email_items U text @ phone_items text (phone text) @ ssn_items U text
      @ credit_card_items U text @ date_items U text @ iban_items U text @ address_items U text)
   = (if c = ''email'' then email_items U text
      else if c = ''phone'' then phone_items text (phone text)
      else if c = ''ssn'' then ssn_items U text
      else if c = ''credit_card'' then credit_card_items U text
      else if c = ''date'' then date_items U text
      else if c = ''iban'' then iban_items U text
      else if c = ''address'' then address_items U text
      else [])"
  by (simp add: category_items_defs filter_regex_items)

lemma filter_category_detect:
  "filter (\<lambda>m. item_type m = c) (detect_pii U phone text)
   = sort_key item_start
      (if c = ''email'' then email_items U text
       else if c = ''phone'' then phone_items text (phone text)
       else if c = ''ssn'' then ssn_items U text
       else if c = ''credit_card'' then credit_card_items U text
       else if c = ''date'' then date_items U text
       else if c = ''iban'' then iban_items U text
       else if c = ''address'' then address_items U text
       else [])"
  unfolding detect_pii_pool filter_sort filter_category_pool ..

lemma filter_no_phone_detect:
  "filter (\<lambda>m. item_type m \<noteq> ''phone'') (detect_pii U phone text)
   = detect_pii U (phone_gives Stop) text"
  by (simp add: detect_pii_pool filter_sort category_items_defs filter_other_regex_items
      phone_gives_def regex_items_Nil)





section \<open>The shape of an email match\<close>

lemma many_ends_unguarded:
  "i \<le> length t \<Longrightarrow>
   many_ends (ends U r t) (length t) i
     = concat (map (\<lambda>j. if i < j then many_ends (ends U r t) (length t) j else [j])
         (ends U r t i)) @ [i]"
proof -
  assume i: "i \<le> length t"
  have eq: "map (\<lambda>j. if i < j \<and> j \<le> length t then many_ends (ends U r t) (length t) j else [j])
          (ends U r t i)
      = map (\<lambda>j. if i < j then many_ends (ends U r t) (length t) j else [j]) (ends U r t i)"
    using ends_bounds [OF i] by (intro map_cong) auto
  show ?thesis by (subst many_ends.simps, subst eq, rule refl)
qed

lemma chr_ends: "j \<in> set (ends U (Chr P) t i) \<longleftrightarrow> j = Suc i \<and> i < length t \<and> P (t ! i)"
  by auto

lemma many_chr_run:
  "j \<in> set (many_ends (ends U (Chr P) t) n i) \<Longrightarrow>
   i \<le> j \<and> (\<forall>k. i \<le> k \<and> k < j \<longrightarrow> k < length t \<and> P (t ! k))"
proof (induction "ends U (Chr P) t" n i arbitrary: j rule: many_ends.induct)
  case (1 n i)
  from "1.prems" consider "j = i"
    | j' where "j' \<in> set (ends U (Chr P) t i)"
        "j \<in> set (if i < j' \<and> j' \<le> n then many_ends (ends U (Chr P) t) n j' else [j'])"
    by (subst (asm) many_ends.simps) auto
  then show ?case
  proof cases
    case 1
    then show ?thesis by auto
  next
    case 2
    from 2(1) have j': "j' = Suc i" "i < length t" "P (t ! i)" by (simp_all add: chr_ends)
    show ?thesis
    proof (cases "i < j' \<and> j' \<le> n")
      case True
      with 2(2) have "j \<in> set (many_ends (ends U (Chr P) t) n j')" by simp
      from "1.hyps" [OF 2(1) True this] j'(1)
      have ih: "Suc i \<le> j" "\<And>k. Suc i \<le> k \<Longrightarrow> k < j \<Longrightarrow> k < length t \<and> P (t ! k)"
        by simp_all
      have "k < length t \<and> P (t ! k)" if "i \<le> k" "k < j" for k
      proof (cases "k = i")
        case True
        with j' show ?thesis by simp
      next
        case False
        with that(1) have "Suc i \<le> k" by simp
        then show ?thesis using that(2) by (rule ih(2))
      qed
      with ih(1) show ?thesis by simp
    next
      case False
      with 2(2) j' show ?thesis by (auto simp: less_Suc_eq)
    qed
  qed
qed

lemma exactly_Suc: "exactly (Suc m) r = Cat r (exactly m r)"
  by (simp add: exactly_def)

lemma exactly_chr_run:
  "j \<in> set (ends U (exactly m (Chr P)) t i) \<Longrightarrow>
   j = i + m \<and> (\<forall>k. i \<le> k \<and> k < j \<longrightarrow> k < length t \<and> P (t ! k))"
proof (induction m arbitrary: i)
  case 0
  then show ?case by (auto simp: exactly_def)
next
  case (Suc m)
  from Suc.prems have "Suc i \<in> set (ends U (Chr P) t i)" "j \<in> set (ends U (exactly m (Chr P)) t (Suc i))"
    by (auto simp: exactly_Suc split: if_splits)
  then have c: "i < length t" "P (t ! i)"
    and ih: "j = Suc i + m" "\<And>k. Suc i \<le> k \<Longrightarrow> k < j \<Longrightarrow> k < length t \<and> P (t ! k)"
    using Suc.IH [of "Suc i"] by (simp_all add: chr_ends)
  have "k < length t \<and> P (t ! k)" if "i \<le> k" "k < j" for k
  proof (cases "k = i")
    case True
    with c show ?thesis by simp
  next
    case False
    with that(1) have "Suc i \<le> k" by simp
    then show ?thesis using that(2) by (rule ih(2))
  qed
  with ih(1) show ?case by simp
qed

lemma at_least_chr_run:
  assumes "j \<in> set (ends U (at_least m (Chr P)) t i)"
  shows "i + m \<le> j \<and> (\<forall>k. i \<le> k \<and> k < j \<longrightarrow> k < length t \<and> P (t ! k))"
proof -
  from assms obtain p where p: "p \<in> set (ends U (exactly m (Chr P)) t i)"
    "j \<in> set (many_ends (ends U (Chr P) t) (length t) p)"
    by (auto simp: at_least_def)
  from exactly_chr_run [OF p(1)] many_chr_run [OF p(2)] show ?thesis
    by (metis le_trans linorder_not_less)
qed

lemma match_at_end: "match_at U r t adv i = Some j \<Longrightarrow> j \<in> set (ends U r t i)"
  by (auto simp: match_at_def find_Some_iff)

lemma search_in_end: "search_in U r t adv ps = Some (s, e) \<Longrightarrow> e \<in> set (ends U r t s)"
proof (induction ps arbitrary: adv)
  case Nil
  then show ?case by simp
next
  case (Cons p ps)
  then show ?case
    by (cases "match_at U r t adv p") (auto dest: match_at_end)
qed

lemma finditer_from_end:
  "(s, e) \<in> set (finditer_from U r t adv i) \<Longrightarrow> e \<in> set (ends U r t s)"
proof (induction U r t adv i rule: finditer_from.induct)
  case (1 U r t adv i)
  show ?case
  proof (cases "search U r t adv i")
    case None
    with "1.prems" show ?thesis by (simp add: finditer_from.simps)
  next
    case (Some p)
    obtain s' e' where p: "p = (s', e')" by (cases p)
    with Some have sr: "search U r t adv i = Some (s', e')" by simp
    have "finditer_from U r t adv i = (s', e') # finditer_from U r t (s' = e') e'"
      using sr by (subst finditer_from.simps) simp
    with "1.prems" consider "(s, e) = (s', e')" | "(s, e) \<in> set (finditer_from U r t (s' = e') e')"
      by auto
    then show ?thesis
    proof cases
      case 1
      with sr show ?thesis by (auto simp: search_def dest: search_in_end)
    next
      case 2
      then show ?thesis by (rule "1.IH" [OF sr refl])
    qed
  qed
qed

lemma finditer_end: "(s, e) \<in> set (finditer U r t) \<Longrightarrow> e \<in> set (ends U r t s)"
  unfolding finditer_def by (rule finditer_from_end)

text \<open>
  The shape of an email match from \<open>s\<close> to \<open>e\<close>: word boundaries at both ends, one or more
  characters of the local part up to an \<open>@\<close> at \<open>a\<close>, one or more characters of the domain
  set up to a dot at \<open>d\<close>, and two or more characters of the last set, which are letters
  or bars.
\<close>

lemma email_ends_shape:
  assumes "e \<in> set (ends U email_pattern t s)"
  shows "\<exists>a d. s < a \<and> Suc a < d \<and> d + 2 < e \<and> e \<le> length t
     \<and> at_boundary U t s \<and> at_boundary U t e
     \<and> (\<forall>k. s \<le> k \<and> k < a \<longrightarrow> email_local (t ! k))
     \<and> t ! a = of_char CHR ''@''
     \<and> (\<forall>k. a < k \<and> k < d \<longrightarrow> email_domain (t ! k))
     \<and> t ! d = of_char CHR ''.''
     \<and> (\<forall>k. d < k \<and> k < e \<longrightarrow> email_tld (t ! k))"
proof -
  from assms obtain a a' d d' where
    b0: "at_boundary U t s"
    and a: "a \<in> set (ends U (one_or_more (Chr email_local)) t s)"
    and a': "a' \<in> set (ends U (ch CHR ''@'') t a)"
    and d: "d \<in> set (ends U (one_or_more (Chr email_domain)) t a')"
    and d': "d' \<in> set (ends U (ch CHR ''.'') t d)"
    and e: "e \<in> set (ends U (at_least 2 (Chr email_tld)) t d')"
    and b1: "at_boundary U t e"
    by (auto simp: email_pattern_def split: if_splits)
  from at_least_chr_run [OF a [unfolded one_or_more_def]]
  have ra: "s < a" "\<And>k. s \<le> k \<Longrightarrow> k < a \<Longrightarrow> email_local (t ! k)" by simp_all
  from a' have at: "a' = Suc a" "t ! a = of_char CHR ''@''"
    by (simp_all add: ch_def split: if_splits)
  from at_least_chr_run [OF d [unfolded one_or_more_def]] at(1)
  have rd: "Suc a < d" "\<And>k. a < k \<Longrightarrow> k < d \<Longrightarrow> email_domain (t ! k)" by simp_all
  from d' have dot: "d' = Suc d" "t ! d = of_char CHR ''.''"
    by (simp_all add: ch_def split: if_splits)
  from at_least_chr_run [OF e] dot(1)
  have re: "d + 2 < e" "\<And>k. d < k \<Longrightarrow> k < e \<Longrightarrow> k < length t \<and> email_tld (t ! k)"
    by simp_all
  have len: "e \<le> length t"
  proof -
    from re(1) have "d < e - 1" "e - 1 < e" by simp_all
    then have "e - 1 < length t" using re(2) by blast
    then show ?thesis by simp
  qed
  from b0 b1 ra at(2) rd dot(2) re len show ?thesis by blast
qed

lemma email_items_member:
  assumes "m \<in> set (detect_pii U phone T)" and "item_type m = ''email''"
  shows "m \<in> set (email_items U T)"
proof -
  from assms have "m \<in> set (filter (\<lambda>m. item_type m = ''email'') (detect_pii U phone T))"
    by simp
  then show ?thesis unfolding filter_category_detect by simp
qed

text \<open>
  Every email item of a result has this shape and the confidence high.
\<close>

lemma email_item_shape:
  assumes "m \<in> set (detect_pii U phone T)" and "item_type m = ''email''"
  shows "item_confidence m = ''high''
     \<and> (\<exists>a d. item_start m < a \<and> Suc a < d \<and> d + 2 < item_end m \<and> item_end m \<le> length T
         \<and> at_boundary U T (item_start m) \<and> at_boundary U T (item_end m)
         \<and> (\<forall>k. item_start m \<le> k \<and> k < a \<longrightarrow> email_local (T ! k))
         \<and> T ! a = of_char CHR ''@''
         \<and> (\<forall>k. a < k \<and> k < d \<longrightarrow> email_domain (T ! k))
         \<and> T ! d = of_char CHR ''.''
         \<and> (\<forall>k. d < k \<and> k < item_end m \<longrightarrow> email_tld (T ! k)))"
proof -
  from email_items_member [OF assms]
  have m: "m \<in> set (regex_items ''email'' ''high'' T (finditer U email_pattern T))"
    by (simp add: email_items_def)
  then have conf: "item_confidence m = ''high''" by (auto simp: regex_items_def)
  from regex_items_member [OF m] have "(item_start m, item_end m) \<in> set (finditer U email_pattern T)"
    by simp
  then have "item_end m \<in> set (ends U email_pattern T (item_start m))" by (rule finditer_end)
  from conf email_ends_shape [OF this] show ?thesis by simp
qed

section \<open>Claims about the detector\<close>

text \<open>
  Claim C1. For every text, \<open>detect_pii\<close> returns the pooled matches of all categories
  sorted ascending by their start offset: the result has the same items as the pool,
  the start offsets ascend, and the items with one and the same start offset stand in
  the order in which they were detected. The category plays no part: a date in front of
  an email address comes first although emails are detected first, and of an email and a
  date that start at the same offset the email, detected first, comes first.
\<close>

theorem detect_pii_sorted_by_start_stable:
  "sorted (map item_start (detect_pii U phone T))
   \<and> mset (detect_pii U phone T)
       = mset (email_items U T @ phone_items T (phone T) @ ssn_items U T
           @ credit_card_items U T @ date_items U T @ iban_items U T
           @ address_items U T)
   \<and> (\<forall>k. filter (\<lambda>m. item_start m = k) (detect_pii U phone T)
          = filter (\<lambda>m. item_start m = k)
              (email_items U T @ phone_items T (phone T) @ ssn_items U T
               @ credit_card_items U T @ date_items U T @ iban_items U T
               @ address_items U T))
   \<and> map (\<lambda>m. (item_type m, item_start m))
         (detect_pii ascii_tables (phone_gives Stop) (lit ''1-1-99 a@b.co''))
       = [(''date'', 0), (''email'', 7)]
   \<and> map (\<lambda>m. (item_type m, item_start m))
         (detect_pii ascii_tables (phone_gives Stop) (lit ''1-1-2000@b.co''))
       = [(''email'', 0), (''date'', 0)]"
proof -
  have ex1: "map (\<lambda>m. (item_type m, item_start m))
      (detect_pii ascii_tables (phone_gives Stop) (lit ''1-1-99 a@b.co''))
    = [(''date'', 0), (''email'', 7)]"
    by code_simp
  have ex2: "map (\<lambda>m. (item_type m, item_start m))
      (detect_pii ascii_tables (phone_gives Stop) (lit ''1-1-2000@b.co''))
    = [(''email'', 0), (''date'', 0)]"
    by code_simp
  have srt: "sorted (map item_start (detect_pii U phone T))"
    unfolding detect_pii_pool by (rule sorted_sort_key)
  have perm: "mset (detect_pii U phone T)
      = mset (email_items U T @ phone_items T (phone T) @ ssn_items U T
          @ credit_card_items U T @ date_items U T @ iban_items U T
          @ address_items U T)"
    unfolding detect_pii_pool by (rule mset_sort)
  have stable: "\<forall>k. filter (\<lambda>m. item_start m = k) (detect_pii U phone T)
      = filter (\<lambda>m. item_start m = k)
          (email_items U T @ phone_items T (phone T) @ ssn_items U T
           @ credit_card_items U T @ date_items U T @ iban_items U T
           @ address_items U T)"
    unfolding detect_pii_pool by (intro allI sort_key_stable)
  show ?thesis
    by (intro conjI srt perm stable ex1 ex2)
qed

text \<open>
  Claim C3. An email match is to consist of one or more characters of the local part,
  an \<open>@\<close>, the domain, a dot and a last part of at least 2 letters, between word
  boundaries, with confidence high. The last set of the pattern is \<open>[A-Z|a-z]\<close>, and
  inside a set the bar is a character like any other: it belongs to the set. For the
  text \<open>"a@b.c|d"\<close> the detector returns the whole text as an email match, whose part
  behind the last dot is \<open>"c|d"\<close>.
\<close>

theorem email_tld_accepts_bar:
  "email_tld (of_char CHR ''|'')
   \<and> detect_pii ascii_tables (phone_gives Stop) (lit ''a@b.c|d'')
       = [\<lparr>item_text = lit ''a@b.c|d'', item_type = ''email'', item_start = 0, item_end = 7,
           item_confidence = ''high''\<rparr>]"
proof -
  have bar: "email_tld (of_char CHR ''|'')"
    by (simp add: email_tld_def one_of_def lit_def)
  have found: "detect_pii ascii_tables (phone_gives Stop) (lit ''a@b.c|d'')
      = [\<lparr>item_text = lit ''a@b.c|d'', item_type = ''email'', item_start = 0, item_end = 7,
          item_confidence = ''high''\<rparr>]"
    by code_simp
  show ?thesis by (intro conjI bar found)
qed







text \<open>
  Claim C6, at a failing input: a phone matcher that yields the span of
  \<open>"+442083661177"\<close> and raises when asked for the next match. The item of the span was
  appended before the exception ended the loop, and the result contains it.
\<close>

theorem phone_raise_after_match_counterexample:
  "raises (phone_gives (Yield 0 13 Raise) (lit ''+442083661177''))
   \<and> map item_type (detect_pii ascii_tables (phone_gives (Yield 0 13 Raise)) (lit ''+442083661177''))
       = [''phone'']"
proof -
  have r: "raises (phone_gives (Yield 0 13 Raise) (lit ''+442083661177''))"
    by (simp add: phone_gives_def)
  have d: "map item_type
      (detect_pii ascii_tables (phone_gives (Yield 0 13 Raise)) (lit ''+442083661177''))
    = [''phone'']"
    by code_simp
  show ?thesis by (intro conjI r d)
qed

text \<open>
  Claim C6 as amended. When the phone matcher raises during a scan, \<open>detect_pii\<close> still
  returns its result: the phone category contributes the matches that the matcher
  yielded before it raised, none when it raises before its first match, and the items of
  the other categories are those of a scan in which the phone matcher finds nothing.
\<close>

theorem phone_raise_isolated:
  assumes "raises (phone T)"
  shows "filter (\<lambda>m. item_type m = ''phone'') (detect_pii U phone T)
      = sort_key item_start
          (map (\<lambda>(s, e). \<lparr>item_text = slice T s e, item_type = ''phone'', item_start = s,
                         item_end = e, item_confidence = ''high''\<rparr>) (yielded (phone T)))
    \<and> filter (\<lambda>m. item_type m \<noteq> ''phone'') (detect_pii U phone T)
        = detect_pii U (phone_gives Stop) T
    \<and> (phone T = Raise \<longrightarrow> detect_pii U phone T = detect_pii U (phone_gives Stop) T)"
proof -
  have ph: "filter (\<lambda>m. item_type m = ''phone'') (detect_pii U phone T)
      = sort_key item_start
          (map (\<lambda>(s, e). \<lparr>item_text = slice T s e, item_type = ''phone'', item_start = s,
                         item_end = e, item_confidence = ''high''\<rparr>) (yielded (phone T)))"
    unfolding filter_category_detect by (simp add: phone_items_yielded regex_items_def)
  have others: "filter (\<lambda>m. item_type m \<noteq> ''phone'') (detect_pii U phone T)
      = detect_pii U (phone_gives Stop) T"
    by (rule filter_no_phone_detect)
  have none: "phone T = Raise \<longrightarrow> detect_pii U phone T = detect_pii U (phone_gives Stop) T"
    by (simp add: detect_pii_pool phone_gives_def)
  show ?thesis
    by (intro conjI ph others none)
qed

theorem phone_raise_isolated_witness:
  "raises (phone_gives (Yield 0 13 Raise) (lit ''+442083661177 a@b.co''))
   \<and> filter (\<lambda>m. item_type m \<noteq> ''phone'')
        (detect_pii ascii_tables (phone_gives (Yield 0 13 Raise)) (lit ''+442083661177 a@b.co''))
       = detect_pii ascii_tables (phone_gives Stop) (lit ''+442083661177 a@b.co'')
   \<and> raises (phone_gives Raise (lit ''+442083661177 a@b.co''))
   \<and> phone_gives Raise (lit ''+442083661177 a@b.co'') = Raise
   \<and> detect_pii ascii_tables (phone_gives Raise) (lit ''+442083661177 a@b.co'')
       = detect_pii ascii_tables (phone_gives Stop) (lit ''+442083661177 a@b.co'')"
proof -
  have r1: "raises (phone_gives (Yield 0 13 Raise) (lit ''+442083661177 a@b.co''))"
    by (simp add: phone_gives_def)
  have r2: "raises (phone_gives Raise (lit ''+442083661177 a@b.co''))"
    by (simp add: phone_gives_def)
  have e: "phone_gives Raise (lit ''+442083661177 a@b.co'') = Raise"
    by (simp add: phone_gives_def)
  note c1 = phone_raise_isolated [where phone = "phone_gives (Yield 0 13 Raise)"
      and T = "lit ''+442083661177 a@b.co''" and U = ascii_tables, OF r1,
      THEN conjunct2, THEN conjunct1]
  note c2 = phone_raise_isolated [where phone = "phone_gives Raise"
      and T = "lit ''+442083661177 a@b.co''" and U = ascii_tables, OF r2,
      THEN conjunct2, THEN conjunct2, THEN mp, OF e]
  show ?thesis
    by (intro conjI r1 c1 r2 e c2)
qed

end
